theory Spec2Isabelle
  imports Main "HOL-Library.DAList" "HOL-Library.Multiset"
begin

section \<open>Paths and file names (cache/lru.go)\<close>

text \<open>
  Go strings are byte sequences; \<^typ>\<open>string\<close> is a list of 8-bit characters, so a key is
  modelled byte for byte. File contents are byte sequences as well. An instant
  (\<open>time.Time\<close>) is an integer count of nanoseconds; \<open>Before\<close> is \<open><\<close>.
\<close>

type_synonym bytes = string
type_synonym time = int

text \<open>
  \<open>filepath.Join(dir, name)\<close> for a name that holds no separator. (\<open>Join\<close> also cleans the
  result, which only rewrites the names \<open>''''\<close>, \<open>''.''\<close> and \<open>''..''\<close>.)
\<close>

definition Join :: "string \<Rightarrow> string \<Rightarrow> string" where
  "Join dir name = dir @ ''/'' @ name"

text \<open>
  \<open>filepath.Ext\<close>: scan from the last byte towards the first, stop at a path separator,
  return the suffix that starts at the first dot met. \<open>ext_scan\<close> walks the reversed path
  and carries the bytes already passed.
\<close>

fun ext_scan :: "string \<Rightarrow> string \<Rightarrow> string" where
  "ext_scan [] passed = []"
| "ext_scan (c # cs) passed =
     (if c = CHR ''/'' then []
      else if c = CHR ''.'' then c # passed
      else ext_scan cs (c # passed))"

definition Ext :: "string \<Rightarrow> string" where
  "Ext path = ext_scan (rev path) []"

text \<open>The characters \<open>sanitizeFilename\<close> lets through unchanged.\<close>

definition safe_char :: "char \<Rightarrow> bool" where
  "safe_char r =
     (let n = (of_char r :: nat) in
        (of_char CHR ''a'' \<le> n \<and> n \<le> of_char CHR ''z'') \<or>
        (of_char CHR ''A'' \<le> n \<and> n \<le> of_char CHR ''Z'') \<or>
        (of_char CHR ''0'' \<le> n \<and> n \<le> of_char CHR ''9'') \<or>
        r = CHR ''-'' \<or> r = CHR ''_'' \<or> r = CHR ''.'')"

text \<open>
  The loop \<open>for _, r := range base\<close> of \<open>sanitizeFilename\<close>. It ranges over runes; a byte
  below 128 is a rune of its own and every rune made of bytes from 128 on is neither safe
  nor a slash, so the loop keeps and drops the same bytes as this one over bytes.
\<close>

fun sanitize_loop :: "string \<Rightarrow> string \<Rightarrow> string" where
  "sanitize_loop [] safe = safe"
| "sanitize_loop (r # rs) safe =
     (if safe_char r then sanitize_loop rs (safe @ [r])
      else if r = CHR ''/'' then sanitize_loop rs (safe @ ''_'')
      else sanitize_loop rs safe)"

definition sanitizeFilename :: "string \<Rightarrow> string" where
  "sanitizeFilename key =
     (let ext = Ext key;
          base = take (length key - length ext) key
      in sanitize_loop base [] @ ext)"


section \<open>Entries, statistics and the disk (cache/lru.go)\<close>

record Entry =
  Key :: string
  Filename :: string
  Size :: int
  AccessTime :: time
  CreateTime :: time

record Stats =
  Hits :: int
  Misses :: int
  Evictions :: int
  TotalBytes :: int
  MaxBytes :: int
  EntryCount :: int
  CacheDir :: string

text \<open>
  What the cache sees of the disk: the regular files by path (\<open>os.Stat\<close> fails exactly on
  a path that is not there), the paths at which \<open>os.Remove\<close> fails and leaves the file
  where it is, and the metadata file of the cache directory. The metadata file is absent,
  or cannot be read or parsed, or holds a JSON array of entries; \<open>Listing\<close> carries the
  entries that \<open>json.Unmarshal\<close> reads from it.
\<close>

datatype metafile = NoFile | Unreadable | Listing "Entry list"

record disk =
  files :: "string \<rightharpoonup> bytes"
  remove_fails :: "string \<Rightarrow> bool"
  metadata :: metafile

text \<open>
  \<open>os.Remove\<close>, as the cache calls it: the error is dropped at every call, so a removal
  that fails changes nothing and is not noticed.
\<close>

definition os_Remove :: "string \<Rightarrow> disk \<Rightarrow> disk" where
  "os_Remove path d =
     (if remove_fails d path then d else d\<lparr>files := (files d)(path := None)\<rparr>)"

text \<open>
  \<open>container/list\<close>: a list element is a heap object; it is modelled by an identity
  (a number, fresh at each push) paired with its value. The front of the list is the head.
\<close>

type_synonym element = nat
type_synonym linked_list = "(element \<times> string) list"

definition Remove :: "element \<Rightarrow> linked_list \<Rightarrow> linked_list" where
  "Remove el l = filter (\<lambda>e. fst e \<noteq> el) l"

definition MoveToFront :: "element \<Rightarrow> linked_list \<Rightarrow> linked_list" where
  "MoveToFront el l =
     (case find (\<lambda>e. fst e = el) l of
        None \<Rightarrow> l
      | Some e \<Rightarrow> e # Remove el l)"

definition Back :: "linked_list \<Rightarrow> (element \<times> string) option" where
  "Back l = (if l = [] then None else Some (last l))"

text \<open>
  The Go maps \<open>entries\<close> and \<open>accessMap\<close> are association lists with distinct keys
  (\<^typ>\<open>('k, 'v) alist\<close>). \<open>nextElem\<close> is the identity the next list element gets.
\<close>

record DiskLRUCache =
  cacheDir :: string
  filesDir :: string
  maxSizeBytes :: int
  currentSize :: int
  entries :: "(string, Entry) alist"
  accessOrder :: linked_list
  accessMap :: "(string, element) alist"
  nextElem :: element
  stats :: Stats

type_synonym world = "DiskLRUCache \<times> disk"

text \<open>
  Go visits the keys of a map in an order it does not specify, and that can differ from
  one loop to the next. \<open>go_range\<close> takes the choices that fix one order: at each step
  the next choice, modulo the number of pairs left, picks the pair visited next.
\<close>

fun go_range :: "nat list \<Rightarrow> 'a list \<Rightarrow> 'a list" where
  "go_range choices [] = []"
| "go_range [] (x # xs) = x # xs"
| "go_range (n # ns) (x # xs) =
     (let i = n mod Suc (length xs)
      in (x # xs) ! i # go_range ns (take i (x # xs) @ drop (Suc i) (x # xs)))"

text \<open>Signed 64-bit wrap-around, for the product \<open>maxSizeGB * 1024 * 1024 * 1024\<close>.\<close>

definition wrap64 :: "int \<Rightarrow> int" where
  "wrap64 x = (x + 2 ^ 63) mod 2 ^ 64 - 2 ^ 63"


subsection \<open>removeEntry and evictIfNeeded\<close>

definition removeEntry :: "string \<Rightarrow> world \<Rightarrow> world" where
  "removeEntry key s =
     (let c = fst s; d = snd s in
      case DAList.lookup (entries c) key of
        None \<Rightarrow> s
      | Some entry \<Rightarrow>
          (let filePath = Join (filesDir c) (Filename entry);
               d' = os_Remove filePath d;
               c1 = (case DAList.lookup (accessMap c) key of
                       Some elem \<Rightarrow>
                         c\<lparr>accessOrder := Remove elem (accessOrder c),
                           accessMap := DAList.delete key (accessMap c)\<rparr>
                     | None \<Rightarrow> c)
           in (c1\<lparr>entries := DAList.delete key (entries c1),
                  currentSize := currentSize c1 - Size entry\<rparr>, d')))"

definition count_eviction :: "world \<Rightarrow> world" where
  "count_eviction s =
     ((fst s)\<lparr>stats := (stats (fst s))\<lparr>Evictions := Evictions (stats (fst s)) + 1\<rparr>\<rparr>, snd s)"

text \<open>
  The loop of \<open>evictIfNeeded\<close>. Nothing in the loop itself makes the list shorter when the
  key at the back has no entry, so the loop is a partial function: \<open>None\<close> is a run that
  never returns. The function returns no error on any path.
\<close>

partial_function (option) evictIfNeeded :: "int \<Rightarrow> world \<Rightarrow> world option" where
  "evictIfNeeded newSize s =
     (if currentSize (fst s) + newSize > maxSizeBytes (fst s) \<and> length (accessOrder (fst s)) > 0
      then (case Back (accessOrder (fst s)) of
              None \<Rightarrow> Some s
            | Some elem \<Rightarrow> evictIfNeeded newSize (count_eviction (removeEntry (snd elem) s)))
      else Some s)"


subsection \<open>saveMetadata, Put, Get, GetStats\<close>

text \<open>
  How \<open>os.WriteFile\<close> on the metadata file ends: written in full; not opened (the old file
  stays); opened, truncated and then failed.
\<close>

datatype write_outcome = Written | OpenFailed | WriteFailed

text \<open>
  \<open>json.MarshalIndent\<close> writes a string rune by rune, as \<open>utf8.DecodeRuneInString\<close> cuts
  it: a byte below 128 is a rune; a byte from \<open>0xC2\<close> to \<open>0xF4\<close> starts a rune of two, three
  or four bytes when the bytes that follow are in the ranges of well-formed UTF-8; any
  other byte is an error of width one. \<open>utf8_width\<close> is the width of the rune at the head
  of the bytes, and 0 for an error.
\<close>

definition continuation :: "nat \<Rightarrow> bool" where
  "continuation b = (0x80 \<le> b \<and> b \<le> 0xBF)"

definition utf8_width :: "string \<Rightarrow> nat" where
  "utf8_width s =
     (case map of_char s of
        [] \<Rightarrow> 0
      | b0 # rest \<Rightarrow>
          if b0 < 0x80 then 1
          else if 0xC2 \<le> b0 \<and> b0 \<le> 0xDF
          then (case rest of
                  b1 # _ \<Rightarrow> if continuation b1 then 2 else 0
                | _ \<Rightarrow> 0)
          else if 0xE0 \<le> b0 \<and> b0 \<le> 0xEF
          then (case rest of
                  b1 # b2 # _ \<Rightarrow>
                    if (if b0 = 0xE0 then 0xA0 else 0x80) \<le> b1 \<and>
                       b1 \<le> (if b0 = 0xED then 0x9F else 0xBF) \<and> continuation b2
                    then 3 else 0
                | _ \<Rightarrow> 0)
          else if 0xF0 \<le> b0 \<and> b0 \<le> 0xF4
          then (case rest of
                  b1 # b2 # b3 # _ \<Rightarrow>
                    if (if b0 = 0xF0 then 0x90 else 0x80) \<le> b1 \<and>
                       b1 \<le> (if b0 = 0xF4 then 0x8F else 0xBF) \<and>
                       continuation b2 \<and> continuation b3
                    then 4 else 0
                | _ \<Rightarrow> 0)
          else 0)"

text \<open>
  A string after \<open>json.MarshalIndent\<close> and \<open>json.Unmarshal\<close>: every rune comes back as it
  was, and every byte that is an error comes back as the three bytes of U+FFFD.
  \<open>json_runes\<close> walks the bytes; its first argument counts the bytes still to copy of the
  rune it is in.
\<close>

fun json_runes :: "nat \<Rightarrow> string \<Rightarrow> string" where
  "json_runes k [] = []"
| "json_runes 0 (c # cs) =
     (let n = utf8_width (c # cs)
      in if n = 0 then [CHR 0xEF, CHR 0xBF, CHR 0xBD] @ json_runes 0 cs
         else c # json_runes (n - 1) cs)"
| "json_runes (Suc k) (c # cs) = c # json_runes k cs"

definition json_string :: "string \<Rightarrow> string" where
  "json_string s = json_runes 0 s"

text \<open>
  An entry after the same round trip. The size comes back as it was, and so do the two
  instants (written with their nanoseconds; an instant whose year has more than four
  digits, which \<open>time.Now\<close> does not give, is not modelled).
\<close>

definition json_entry :: "Entry \<Rightarrow> Entry" where
  "json_entry e = e\<lparr>Key := json_string (Key e), Filename := json_string (Filename e)\<rparr>"

definition saveMetadata :: "nat list \<Rightarrow> write_outcome \<Rightarrow> world \<Rightarrow> world" where
  "saveMetadata order outcome s =
     (let listing = map snd (go_range order (DAList.impl_of (entries (fst s)))) in
      case outcome of
        Written \<Rightarrow> (fst s, (snd s)\<lparr>metadata := Listing (map json_entry listing)\<rparr>)
      | OpenFailed \<Rightarrow> s
      | WriteFailed \<Rightarrow> (fst s, (snd s)\<lparr>metadata := Unreadable\<rparr>))"

text \<open>
  What the environment decides during one \<open>Put\<close>: whether \<open>os.Create\<close>, \<open>io.Copy\<close> and
  \<open>os.Rename\<close> fail, how many bytes a copy that fails has written, the two readings of
  the clock, and how saving the metadata goes. \<open>os.Rename\<close> fails as well when the
  temporary file is no longer there.
\<close>

record put_env =
  create_fails :: bool
  copy_fails :: bool
  copy_written :: nat
  rename_fails :: bool
  now_access :: time
  now_create :: time
  save_order :: "nat list"
  save_outcome :: write_outcome

datatype put_error = CreateTempFailed | WriteFileFailed | EvictFailed | RenameFailed

definition install :: "string \<Rightarrow> string \<Rightarrow> int \<Rightarrow> put_env \<Rightarrow> DiskLRUCache \<Rightarrow> DiskLRUCache" where
  "install key filename sz env c =
     (let entry = \<lparr>Key = key, Filename = filename, Size = sz,
                   AccessTime = now_access env, CreateTime = now_create env\<rparr>;
          c1 = c\<lparr>entries := DAList.update key entry (entries c)\<rparr>;
          elem = nextElem c1;
          c2 = c1\<lparr>accessOrder := (elem, key) # accessOrder c1, nextElem := Suc elem\<rparr>;
          c3 = c2\<lparr>accessMap := DAList.update key elem (accessMap c2)\<rparr>;
          c4 = c3\<lparr>currentSize := currentSize c3 + sz\<rparr>;
          c5 = c4\<lparr>stats := (stats c4)\<lparr>TotalBytes := currentSize c4\<rparr>\<rparr>
      in c5\<lparr>stats := (stats c5)\<lparr>EntryCount := int (length (DAList.impl_of (entries c5)))\<rparr>\<rparr>)"

definition Put :: "string \<Rightarrow> bytes \<Rightarrow> put_env \<Rightarrow> world \<Rightarrow> ((put_error + string) \<times> world) option" where
  "Put key data env s =
     (let s1 = (if DAList.lookup (entries (fst s)) key \<noteq> None then removeEntry key s else s);
          c1 = fst s1; d1 = snd s1;
          filename = sanitizeFilename key;
          filePath = Join (filesDir c1) filename;
          tmpPath = filePath @ ''.tmp''
      in if create_fails env then Some (Inl CreateTempFailed, s1)
         else if copy_fails env
         then Some (Inl WriteFileFailed,
                    (c1, os_Remove tmpPath
                           (d1\<lparr>files := (files d1)(tmpPath \<mapsto> take (copy_written env) data)\<rparr>)))
         else
           (let sz = int (length data);
                d2 = d1\<lparr>files := (files d1)(tmpPath \<mapsto> data)\<rparr>
            in case evictIfNeeded sz (c1, d2) of
                 None \<Rightarrow> None
               | Some s3 \<Rightarrow>
                   (let c3 = fst s3; d3 = snd s3 in
                    case (if rename_fails env then None else files d3 tmpPath) of
                      None \<Rightarrow>
                        Some (Inl RenameFailed, (c3, os_Remove tmpPath d3))
                    | Some content \<Rightarrow>
                        (let d4 = d3\<lparr>files := (files d3)(tmpPath := None, filePath \<mapsto> content)\<rparr>;
                             c4 = install key filename sz env c3
                         in Some (Inr filePath,
                                  saveMetadata (save_order env) (save_outcome env) (c4, d4))))))"

definition count_miss :: "DiskLRUCache \<Rightarrow> DiskLRUCache" where
  "count_miss c = c\<lparr>stats := (stats c)\<lparr>Misses := Misses (stats c) + 1\<rparr>\<rparr>"

definition count_hit :: "DiskLRUCache \<Rightarrow> DiskLRUCache" where
  "count_hit c = c\<lparr>stats := (stats c)\<lparr>Hits := Hits (stats c) + 1\<rparr>\<rparr>"

definition Get :: "string \<Rightarrow> time \<Rightarrow> world \<Rightarrow> (string \<times> bool) \<times> world" where
  "Get key now s =
     (let c = fst s; d = snd s in
      case DAList.lookup (entries c) key of
        None \<Rightarrow> (('''', False), (count_miss c, d))
      | Some entry \<Rightarrow>
          (let filePath = Join (filesDir c) (Filename entry) in
           if files d filePath = None
           then (let s' = removeEntry key s in (('''', False), (count_miss (fst s'), snd s')))
           else
             (let c1 = c\<lparr>entries := DAList.update key (entry\<lparr>AccessTime := now\<rparr>) (entries c)\<rparr>;
                  c2 = (case DAList.lookup (accessMap c1) key of
                          Some elem \<Rightarrow> c1\<lparr>accessOrder := MoveToFront elem (accessOrder c1)\<rparr>
                        | None \<Rightarrow> c1)
              in ((filePath, True), (count_hit c2, d)))))"


subsection \<open>loadFromDisk and NewDiskLRUCache\<close>

definition push_back :: "string \<Rightarrow> DiskLRUCache \<Rightarrow> DiskLRUCache" where
  "push_back key c =
     (let elem = nextElem c;
          c1 = c\<lparr>accessOrder := accessOrder c @ [(elem, key)], nextElem := Suc elem\<rparr>
      in c1\<lparr>accessMap := DAList.update key elem (accessMap c1)\<rparr>)"

text \<open>One round of the first loop of \<open>loadFromDisk\<close>, over the entries of the metadata.\<close>

definition load_entry :: "disk \<Rightarrow> Entry \<Rightarrow> DiskLRUCache \<Rightarrow> DiskLRUCache" where
  "load_entry d entry c =
     (case files d (Join (filesDir c) (Filename entry)) of
        None \<Rightarrow> c
      | Some content \<Rightarrow>
          (let entry' = entry\<lparr>Size := int (length content)\<rparr>;
               c1 = c\<lparr>entries := DAList.update (Key entry') entry' (entries c)\<rparr>;
               c2 = push_back (Key entry') c1
           in c2\<lparr>currentSize := currentSize c2 + Size entry'\<rparr>))"

text \<open>
  The two nested loops that sort \<open>sorted\<close> by access time, most recent first: for each
  \<open>i\<close>, every later \<open>j\<close> whose time is after the one at \<open>i\<close> is swapped with \<open>i\<close>.
\<close>

definition sort_swap :: "nat \<Rightarrow> nat \<Rightarrow> (string \<times> time) list \<Rightarrow> (string \<times> time) list" where
  "sort_swap i j sorted' =
     (if snd (sorted' ! i) < snd (sorted' ! j)
      then sorted'[i := sorted' ! j, j := sorted' ! i]
      else sorted')"

definition sort_inner :: "nat \<Rightarrow> (string \<times> time) list \<Rightarrow> (string \<times> time) list" where
  "sort_inner i sorted' = fold (sort_swap i) [Suc i ..< length sorted'] sorted'"

definition sort_by_time :: "(string \<times> time) list \<Rightarrow> (string \<times> time) list" where
  "sort_by_time sorted' = fold sort_inner [0 ..< length sorted' - 1] sorted'"

datatype load_result = Loaded | LoadFailed

definition loadFromDisk :: "nat list \<Rightarrow> disk \<Rightarrow> DiskLRUCache \<Rightarrow> load_result \<times> DiskLRUCache" where
  "loadFromDisk order d c =
     (case metadata d of
        NoFile \<Rightarrow> (Loaded, c)
      | Unreadable \<Rightarrow> (LoadFailed, c)
      | Listing listing \<Rightarrow>
          (let c1 = fold (load_entry d) listing c;
               sorted' = sort_by_time
                          (map (\<lambda>(key, entry). (key, AccessTime entry))
                             (go_range order (DAList.impl_of (entries c1))));
               c2 = c1\<lparr>accessOrder := [], accessMap := DAList.empty\<rparr>;
               c3 = fold (\<lambda>e. push_back (fst e)) sorted' c2;
               c4 = c3\<lparr>stats := (stats c3)\<lparr>TotalBytes := currentSize c3\<rparr>\<rparr>
           in (Loaded,
               c4\<lparr>stats := (stats c4)\<lparr>EntryCount := int (length (DAList.impl_of (entries c4)))\<rparr>\<rparr>)))"

text \<open>
  What the environment decides during \<open>NewDiskLRUCache\<close>: whether \<open>os.MkdirAll\<close> fails
  and the order in which \<open>loadFromDisk\<close> ranges over the map of entries. \<open>None\<close> is the
  error return. A failed load is only logged: the cache it leaves is returned.
\<close>

record start_env =
  mkdir_fails :: bool
  range_order :: "nat list"

definition GB :: "int \<Rightarrow> int" where
  "GB maxSizeGB = wrap64 (wrap64 (wrap64 (maxSizeGB * 1024) * 1024) * 1024)"

definition empty_cache :: "string \<Rightarrow> int \<Rightarrow> DiskLRUCache" where
  "empty_cache dir maxBytes =
     \<lparr>cacheDir = dir,
      filesDir = Join dir ''files'',
      maxSizeBytes = maxBytes,
      currentSize = 0,
      entries = DAList.empty,
      accessOrder = [],
      accessMap = DAList.empty,
      nextElem = 0,
      stats = \<lparr>Hits = 0, Misses = 0, Evictions = 0, TotalBytes = 0,
                MaxBytes = maxBytes, EntryCount = 0, CacheDir = dir\<rparr>\<rparr>"

definition NewDiskLRUCache :: "string \<Rightarrow> int \<Rightarrow> start_env \<Rightarrow> disk \<Rightarrow> DiskLRUCache option" where
  "NewDiskLRUCache dir maxSizeGB env d =
     (if mkdir_fails env then None
      else
        (let cache = empty_cache dir (GB maxSizeGB)
         in Some (snd (loadFromDisk (range_order env) d cache))))"


section \<open>The downloader (cache/s3.go)\<close>

text \<open>\<open>strings.Index\<close> for a one-byte separator, and \<open>strings.SplitN(s, sep, 2)\<close>.\<close>

fun index_byte :: "char \<Rightarrow> string \<Rightarrow> nat option" where
  "index_byte sep [] = None"
| "index_byte sep (c # cs) =
     (if c = sep then Some 0 else map_option Suc (index_byte sep cs))"

definition SplitN2 :: "string \<Rightarrow> char \<Rightarrow> string list" where
  "SplitN2 s sep =
     (case index_byte sep s of
        None \<Rightarrow> [s]
      | Some i \<Rightarrow> [take i s, drop (Suc i) s])"

datatype download_error = InvalidKeyFormat | BucketLocationFailed | GetObjectFailed

definition parseS3Key :: "string \<Rightarrow> download_error + (string \<times> string)" where
  "parseS3Key key =
     (let parts = SplitN2 key CHR ''/'' in
      if length parts \<noteq> 2 then Inl InvalidKeyFormat
      else Inr (parts ! 0, parts ! 1))"

text \<open>
  The requests that reach the storage service, in the order they are made, each with the
  region of the client it went through. The service's answers are inputs of the model:
  \<open>location_reply\<close> is the answer a location query gets (\<open>None\<close> an error, otherwise the
  location constraint) and \<open>object_reply\<close> the answer an object fetch gets (\<open>None\<close> an
  error, otherwise the body and the content length when the service sent one).
\<close>

datatype backend_call =
    GetBucketLocation string string
  | GetObject string string string

record backend_env =
  location_reply :: "string option"
  object_reply :: "(bytes \<times> int option) option"

record S3Downloader =
  bucketRegions :: "(string, string) alist"

type_synonym s3_state = "S3Downloader \<times> backend_call list"

definition NewS3Downloader :: S3Downloader where
  "NewS3Downloader = \<lparr>bucketRegions = DAList.empty\<rparr>"

text \<open>A client is known by the region it is pinned to.\<close>

definition getClientForBucket ::
    "string \<Rightarrow> backend_env \<Rightarrow> s3_state \<Rightarrow> (download_error + string) \<times> s3_state" where
  "getClientForBucket bucket env s =
     (case DAList.lookup (bucketRegions (fst s)) bucket of
        Some region \<Rightarrow> (Inr region, s)
      | None \<Rightarrow>
          (let calls = snd s @ [GetBucketLocation ''us-east-1'' bucket] in
           case location_reply env of
             None \<Rightarrow> (Inl BucketLocationFailed, (fst s, calls))
           | Some location \<Rightarrow>
               (let region = (if location = '''' then ''us-east-1'' else location);
                    d = (fst s)\<lparr>bucketRegions := DAList.update bucket region (bucketRegions (fst s))\<rparr>
                in (Inr region, (d, calls)))))"

definition Download ::
    "string \<Rightarrow> backend_env \<Rightarrow> s3_state \<Rightarrow> (download_error + (bytes \<times> int)) \<times> s3_state" where
  "Download key env s =
     (case parseS3Key key of
        Inl err \<Rightarrow> (Inl err, s)
      | Inr (bucket, objectKey) \<Rightarrow>
          (case getClientForBucket bucket env s of
             (Inl err, s1) \<Rightarrow> (Inl err, s1)
           | (Inr region, s1) \<Rightarrow>
               (let s2 = (fst s1, snd s1 @ [GetObject region bucket objectKey]) in
                case object_reply env of
                  None \<Rightarrow> (Inl GetObjectFailed, s2)
                | Some (body, contentLength) \<Rightarrow>
                    (Inr (body, (case contentLength of None \<Rightarrow> 0 | Some n \<Rightarrow> n)), s2))))"


section \<open>The request handler (handler/handler.go)\<close>

datatype response =
    MethodNotAllowed
  | NotFound
  | InternalServerError
  | ServeFile string

definition status_code :: "response \<Rightarrow> nat" where
  "status_code r =
     (case r of
        MethodNotAllowed \<Rightarrow> 405
      | NotFound \<Rightarrow> 404
      | InternalServerError \<Rightarrow> 500
      | ServeFile path \<Rightarrow> 200)"

definition TrimPrefix :: "string \<Rightarrow> string \<Rightarrow> string" where
  "TrimPrefix s prefix =
     (if take (length prefix) s = prefix then drop (length prefix) s else s)"

record request_env =
  now :: time
  backend :: backend_env
  store :: put_env

text \<open>
  \<open>HandleFile\<close> on a request with the given method and URL path, over the cache, the disk
  and the downloader. \<open>None\<close> is a request whose \<open>Put\<close> never returns.
\<close>

definition HandleFile ::
    "string \<Rightarrow> string \<Rightarrow> request_env \<Rightarrow> world \<times> s3_state \<Rightarrow> (response \<times> world \<times> s3_state) option" where
  "HandleFile method path env st =
     (let w = fst st; dl = snd st in
      if method \<noteq> ''GET'' then Some (MethodNotAllowed, st)
      else
        (let key = TrimPrefix path ''/'' in
         if key = '''' \<or> key = ''health'' \<or> key = ''stats'' then Some (NotFound, st)
         else
           (case Get key (now env) w of
              ((filePath, True), w1) \<Rightarrow> Some (ServeFile filePath, (w1, dl))
            | ((filePath, False), w1) \<Rightarrow>
                (case Download key (backend env) dl of
                   (Inl err, dl1) \<Rightarrow> Some (NotFound, (w1, dl1))
                 | (Inr (reader, sz), dl1) \<Rightarrow>
                     (case Put key reader (store env) w1 of
                        None \<Rightarrow> None
                      | Some (Inl err, w2) \<Rightarrow> Some (InternalServerError, (w2, dl1))
                      | Some (Inr filePath', w2) \<Rightarrow> Some (ServeFile filePath', (w2, dl1)))))))"


section \<open>Vocabulary of the properties\<close>






text \<open>An empty disk, and answers of the service, for the examples.\<close>

definition no_disk :: disk where
  "no_disk = \<lparr>files = Map.empty, remove_fails = (\<lambda>path. False), metadata = NoFile\<rparr>"

definition no_answer :: backend_env where
  "no_answer = \<lparr>location_reply = None, object_reply = None\<rparr>"


text \<open>An environment in which no file operation of \<open>Put\<close> fails, at a given instant.\<close>

definition no_fault :: "time \<Rightarrow> put_env" where
  "no_fault t =
     \<lparr>create_fails = False, copy_fails = False, copy_written = 0, rename_fails = False,
      now_access = t, now_create = t, save_order = [], save_outcome = Written\<rparr>"

text \<open>
  The keys of a Go map, the bytes its entries account for, and the keys of the recency
  list from the most recently used to the least.
\<close>

definition keys_of :: "('k, 'v) alist \<Rightarrow> 'k list" where
  "keys_of m = map fst (DAList.impl_of m)"

definition total_size :: "(string, Entry) alist \<Rightarrow> int" where
  "total_size m = sum_list (map (\<lambda>p. Size (snd p)) (DAList.impl_of m))"

definition order_keys :: "DiskLRUCache \<Rightarrow> string list" where
  "order_keys c = map snd (accessOrder c)"

text \<open>
  The consistency of a cache. Of the recency list: its elements are distinct objects made
  before \<open>nextElem\<close>; \<open>accessMap\<close> holds, for each key, the list element of that key, and
  the list has no other element. Of the sizes: \<open>currentSize\<close> is the sum of the entries'
  sizes; every entry is stored under its own key and has a size that is not negative.
  Of both: the keys of the list are the keys of \<open>entries\<close>.
\<close>

definition list_inv :: "DiskLRUCache \<Rightarrow> bool" where
  "list_inv c =
     (distinct (map fst (accessOrder c)) \<and>
      list_all (\<lambda>e. fst e < nextElem c) (accessOrder c) \<and>
      set (map (\<lambda>p. (snd p, fst p)) (DAList.impl_of (accessMap c))) = set (accessOrder c))"

definition size_inv :: "DiskLRUCache \<Rightarrow> bool" where
  "size_inv c =
     (currentSize c = total_size (entries c) \<and>
      list_all (\<lambda>p. Key (snd p) = fst p \<and> 0 \<le> Size (snd p)) (DAList.impl_of (entries c)))"

definition cache_inv :: "DiskLRUCache \<Rightarrow> bool" where
  "cache_inv c =
     (list_inv c \<and> set (keys_of (entries c)) = set (order_keys c) \<and> size_inv c)"

text \<open>The metadata file lists no key twice.\<close>

definition meta_ok :: "disk \<Rightarrow> bool" where
  "meta_ok d =
     (case metadata d of
        Listing listing \<Rightarrow> distinct (map Key listing)
      | _ \<Rightarrow> True)"

text \<open>
  What a run of the eviction loop leaves alone: the directories, the capacity, the hit
  and miss counts, the metadata file and the paths that cannot be removed stay; entries
  and files are deleted, never added or changed.
\<close>

definition evict_frame :: "world \<Rightarrow> world \<Rightarrow> bool" where
  "evict_frame s t \<longleftrightarrow>
     filesDir (fst t) = filesDir (fst s) \<and> cacheDir (fst t) = cacheDir (fst s) \<and>
     maxSizeBytes (fst t) = maxSizeBytes (fst s) \<and> nextElem (fst t) = nextElem (fst s) \<and>
     Hits (stats (fst t)) = Hits (stats (fst s)) \<and> Misses (stats (fst t)) = Misses (stats (fst s)) \<and>
     metadata (snd t) = metadata (snd s) \<and> remove_fails (snd t) = remove_fails (snd s) \<and>
     (\<forall>k. DAList.lookup (entries (fst t)) k = None \<or>
          DAList.lookup (entries (fst t)) k = DAList.lookup (entries (fst s)) k) \<and>
     (\<forall>p. files (snd t) p = None \<or> files (snd t) p = files (snd s) p)"

text \<open>
  The paths \<open>Put\<close> works with, and the state in which it calls \<open>evictIfNeeded\<close>: the old
  entry of the key removed and the data written to the temporary file.
\<close>

definition file_path :: "world \<Rightarrow> string \<Rightarrow> string" where
  "file_path s key = Join (filesDir (fst s)) (sanitizeFilename key)"

definition tmp_path :: "world \<Rightarrow> string \<Rightarrow> string" where
  "tmp_path s key = file_path s key @ ''.tmp''"

definition staged :: "string \<Rightarrow> bytes \<Rightarrow> world \<Rightarrow> world" where
  "staged key data s =
     (fst (removeEntry key s),
      (snd (removeEntry key s))\<lparr>files := (files (snd (removeEntry key s)))(tmp_path s key \<mapsto> data)\<rparr>)"

text \<open>
  For the examples: the entry, the cache and the disk that \<open>Put\<close> of the three bytes
  \<open>abc\<close> under the key \<open>b/x\<close> leaves, at instant 1, in an empty cache of one gigabyte
  on an empty disk.
\<close>

definition entry_x :: Entry where
  "entry_x = \<lparr>Key = ''b/x'', Filename = ''b_x'', Size = 3, AccessTime = 1, CreateTime = 1\<rparr>"

definition cache_x :: DiskLRUCache where
  "cache_x = install ''b/x'' ''b_x'' 3 (no_fault 1) (empty_cache ''/c'' (GB 1))"

definition disk_x :: disk where
  "disk_x =
     \<lparr>files = [''/c/files/b_x'' \<mapsto> ''abc''], remove_fails = (\<lambda>path. False),
      metadata = Listing [entry_x]\<rparr>"

definition plain_start :: start_env where
  "plain_start = \<lparr>mkdir_fails = False, range_order = []\<rparr>"

text \<open>The same cache, made with a capacity of zero gigabytes.\<close>

definition cache_zero :: DiskLRUCache where
  "cache_zero = install ''b/x'' ''b_x'' 3 (no_fault 1) (empty_cache ''/c'' (GB 0))"


section \<open>Properties of the file names\<close>

lemma sanitize_loop_safe:
  "list_all safe_char safe \<Longrightarrow> list_all safe_char (sanitize_loop base safe)"
  by (induction base arbitrary: safe) (auto simp: safe_char_def)

lemma ext_scan_suffix:
  "\<exists>front. rev cs @ passed = front @ ext_scan cs passed"
proof (induction cs arbitrary: passed)
  case Nil
  show ?case by simp
next
  case (Cons c cs)
  from Cons.IH [of "c # passed"] show ?case by auto
qed

lemma Ext_suffix: "\<exists>base. key = base @ Ext key"
  using ext_scan_suffix [of "rev key" "[]"] by (simp add: Ext_def)

lemma ext_scan_no_separator: "CHR ''/'' \<notin> set passed \<Longrightarrow> CHR ''/'' \<notin> set (ext_scan cs passed)"
  by (induction cs arbitrary: passed) auto

lemma sanitize_loop_no_separator:
  "CHR ''/'' \<notin> set safe \<Longrightarrow> CHR ''/'' \<notin> set (sanitize_loop base safe)"
  by (induction base arbitrary: safe) (auto simp: safe_char_def)

text \<open>
  The part of the name before the extension holds safe characters only, the extension is
  the key's own, and the name holds no path separator.
\<close>

lemma sanitizeFilename_shape:
  "\<exists>stem. sanitizeFilename key = stem @ Ext key \<and> list_all safe_char stem \<and>
     CHR ''/'' \<notin> set (sanitizeFilename key)"
  using sanitize_loop_safe [of "[]"] sanitize_loop_no_separator [of "[]"]
    ext_scan_no_separator [of "[]" "rev key"]
  by (simp add: sanitizeFilename_def Ext_def Let_def)

text \<open>
  C9. The claim: every character of the sanitized file name is one of the safe characters
  (alphanumerics, \<open>-\<close>, \<open>_\<close>, \<open>.\<close>). The extension is appended as the key has it, and
  only the part before it goes through the filter: for the key \<open>bucket/Mr. Smith\<close> the
  extension is \<open>. Smith\<close>, and the file name \<open>bucket_Mr. Smith\<close> holds a space.
\<close>

theorem sanitizeFilename_unsafe_extension:
  "sanitizeFilename ''bucket/Mr. Smith'' = ''bucket_Mr. Smith'' \<and>
   \<not> list_all safe_char (sanitizeFilename ''bucket/Mr. Smith'')"
  by (simp add: sanitizeFilename_def Ext_def safe_char_def)


section \<open>Properties of the maps and the recency list\<close>

lemma lookup_update:
  "DAList.lookup (DAList.update k v m) k' = (if k' = k then Some v else DAList.lookup m k')"
  by transfer (simp add: update_conv')

lemma lookup_delete:
  "DAList.lookup (DAList.delete k m) k' = (if k' = k then None else DAList.lookup m k')"
  by transfer (simp add: delete_conv')

lemma lookup_empty: "DAList.lookup DAList.empty k = None"
  by transfer simp

lemma lookup_iff: "DAList.lookup m k = Some v \<longleftrightarrow> (k, v) \<in> set (DAList.impl_of m)"
  by transfer simp

lemma lookup_None_iff: "DAList.lookup m k = None \<longleftrightarrow> k \<notin> set (keys_of m)"
  unfolding keys_of_def by transfer (simp add: map_of_eq_None_iff)

lemma distinct_keys_of: "distinct (keys_of m)"
  unfolding keys_of_def by transfer simp

lemma keys_of_empty: "keys_of DAList.empty = []"
  by (simp add: keys_of_def empty.rep_eq)

lemma alist_update_new:
  "map_of al k = None \<Longrightarrow> AList.update k v al = al @ [(k, v)]"
  by (induction al) (auto split: if_splits)

lemma impl_of_update_new:
  "DAList.lookup m k = None \<Longrightarrow> DAList.impl_of (DAList.update k v m) = DAList.impl_of m @ [(k, v)]"
  by transfer (simp add: alist_update_new)

lemma keys_of_update_new:
  "DAList.lookup m k = None \<Longrightarrow> keys_of (DAList.update k v m) = keys_of m @ [k]"
  by (simp add: keys_of_def impl_of_update_new)

lemma keys_of_update_old:
  "DAList.lookup m k = Some v' \<Longrightarrow> keys_of (DAList.update k v m) = keys_of m"
  unfolding keys_of_def
  by transfer (auto simp: update_keys map_of_eq_None_iff [symmetric])


lemma alist_sum_delete:
  "distinct (map fst al) \<Longrightarrow> map_of al k = Some v \<Longrightarrow>
   sum_list (map f (AList.delete k al)) = sum_list (map f al) - (f (k, v) :: int)"
proof (induction al)
  case Nil
  then show ?case by simp
next
  case (Cons p al)
  show ?case
  proof (cases "fst p = k")
    case True
    with Cons.prems have "p = (k, v)" "k \<notin> fst ` set al"
      by (auto simp: prod_eq_iff)
    then show ?thesis by (simp add: delete_id)
  next
    case False
    with Cons show ?thesis by (cases p) auto
  qed
qed

lemma total_size_delete:
  "DAList.lookup m k = Some e \<Longrightarrow> total_size (DAList.delete k m) = total_size m - Size e"
  unfolding total_size_def
  by transfer (simp add: alist_sum_delete [where f = "\<lambda>p. Size (snd p)"])

lemma total_size_update_new:
  "DAList.lookup m k = None \<Longrightarrow> total_size (DAList.update k e m) = total_size m + Size e"
  by (simp add: total_size_def impl_of_update_new)

lemma alist_sum_update:
  "distinct (map fst al) \<Longrightarrow> map_of al k = Some v \<Longrightarrow>
   sum_list (map f (AList.update k v' al)) = sum_list (map f al) - (f (k, v) :: int) + f (k, v')"
proof (induction al)
  case Nil
  then show ?case by simp
next
  case (Cons p al)
  show ?case
  proof (cases "fst p = k")
    case True
    with Cons.prems have "p = (k, v)" by (auto simp: prod_eq_iff)
    then show ?thesis by simp
  next
    case False
    with Cons show ?thesis by (cases p) auto
  qed
qed

lemma total_size_update_old:
  "DAList.lookup m k = Some e \<Longrightarrow>
   total_size (DAList.update k e' m) = total_size m - Size e + Size e'"
  unfolding total_size_def
  by transfer (simp add: alist_sum_update [where f = "\<lambda>p. Size (snd p)"])




lemma cache_inv_alt:
  "cache_inv c \<longleftrightarrow>
     distinct (map fst (accessOrder c)) \<and>
     (\<forall>e \<in> set (accessOrder c). fst e < nextElem c) \<and>
     (\<forall>k el. DAList.lookup (accessMap c) k = Some el \<longleftrightarrow> (el, k) \<in> set (accessOrder c)) \<and>
     (\<forall>k. DAList.lookup (entries c) k \<noteq> None \<longleftrightarrow> k \<in> set (order_keys c)) \<and>
     currentSize c = total_size (entries c) \<and>
     (\<forall>k e. DAList.lookup (entries c) k = Some e \<longrightarrow> Key e = k \<and> 0 \<le> Size e)"
proof -
  have a: "set (map (\<lambda>p. (snd p, fst p)) (DAList.impl_of (accessMap c))) = set (accessOrder c) \<longleftrightarrow>
           (\<forall>k el. DAList.lookup (accessMap c) k = Some el \<longleftrightarrow> (el, k) \<in> set (accessOrder c))"
    by (auto simp: lookup_iff image_iff set_eq_iff) force+
  have b: "set (keys_of (entries c)) = set (order_keys c) \<longleftrightarrow>
           (\<forall>k. DAList.lookup (entries c) k \<noteq> None \<longleftrightarrow> k \<in> set (order_keys c))"
    by (auto simp: lookup_None_iff)
  have d: "list_all (\<lambda>p. Key (snd p) = fst p \<and> 0 \<le> Size (snd p)) (DAList.impl_of (entries c)) \<longleftrightarrow>
           (\<forall>k e. DAList.lookup (entries c) k = Some e \<longrightarrow> Key e = k \<and> 0 \<le> Size e)"
    by (auto simp: lookup_iff list_all_iff)
  show ?thesis
    unfolding cache_inv_def list_inv_def size_inv_def a b d by (auto simp: list_all_iff)
qed

lemma inv_ids: "cache_inv c \<Longrightarrow> distinct (map fst (accessOrder c))"
  by (simp add: cache_inv_alt)

lemma inv_fresh: "cache_inv c \<Longrightarrow> e \<in> set (accessOrder c) \<Longrightarrow> fst e < nextElem c"
  by (simp add: cache_inv_alt)

lemma inv_link:
  "cache_inv c \<Longrightarrow> (DAList.lookup (accessMap c) k = Some el) = ((el, k) \<in> set (accessOrder c))"
  by (simp add: cache_inv_alt)

lemma inv_keys:
  "cache_inv c \<Longrightarrow> (DAList.lookup (entries c) k = None) = (k \<notin> set (order_keys c))"
  using cache_inv_alt [of c] by blast

lemma inv_keys_ex:
  "cache_inv c \<Longrightarrow> (\<exists>e. DAList.lookup (entries c) k = Some e) = (k \<in> set (order_keys c))"
  using inv_keys [of c k] by (cases "DAList.lookup (entries c) k") auto

lemma inv_size: "cache_inv c \<Longrightarrow> currentSize c = total_size (entries c)"
  by (simp add: cache_inv_alt)

lemma inv_entry:
  "cache_inv c \<Longrightarrow> DAList.lookup (entries c) k = Some e \<Longrightarrow> Key e = k \<and> 0 \<le> Size e"
  using cache_inv_alt [of c] by blast

lemma inv_distinct_order: "cache_inv c \<Longrightarrow> distinct (order_keys c)"
proof -
  assume inv: "cache_inv c"
  have "inj_on snd (set (accessOrder c))"
  proof (rule inj_onI)
    fix x y assume "x \<in> set (accessOrder c)" "y \<in> set (accessOrder c)" "snd x = snd y"
    then have "(fst x, snd x) \<in> set (accessOrder c)" "(fst y, snd x) \<in> set (accessOrder c)"
      by simp_all (metis prod.collapse)
    then have "DAList.lookup (accessMap c) (snd x) = Some (fst x)"
      "DAList.lookup (accessMap c) (snd x) = Some (fst y)"
      by (simp_all only: inv_link [OF inv])
    with \<open>snd x = snd y\<close> show "x = y" by (simp add: prod_eq_iff)
  qed
  with inv_ids [OF inv] show ?thesis
    by (simp add: order_keys_def distinct_map)
qed

lemma inv_element_key:
  assumes "cache_inv c" "(el, k) \<in> set (accessOrder c)" "(el', k') \<in> set (accessOrder c)"
  shows "el = el' \<longleftrightarrow> k = k'"
proof
  assume "el = el'"
  from inv_ids [OF assms(1)] have "inj_on fst (set (accessOrder c))" by (simp add: distinct_map)
  from inj_onD [OF this _ assms(2,3)] \<open>el = el'\<close> show "k = k'" by simp
next
  assume "k = k'"
  from assms(1) have "inj_on snd (set (accessOrder c))"
    using inv_distinct_order [OF assms(1)] by (simp add: order_keys_def distinct_map)
  from inj_onD [OF this _ assms(2,3)] \<open>k = k'\<close> show "el = el'" by simp
qed

lemma Remove_by_key:
  assumes "cache_inv c" "DAList.lookup (accessMap c) key = Some el"
  shows "Remove el (accessOrder c) = filter (\<lambda>e. snd e \<noteq> key) (accessOrder c)"
proof -
  from assms have m: "(el, key) \<in> set (accessOrder c)" by (simp add: inv_link)
  have "\<And>e. e \<in> set (accessOrder c) \<Longrightarrow> (fst e \<noteq> el) = (snd e \<noteq> key)"
    using inv_element_key [OF assms(1) m] by (metis prod.collapse)
  then show ?thesis
    unfolding Remove_def by (rule filter_cong [OF refl])
qed

lemma os_Remove_fields [simp]:
  "metadata (os_Remove p d) = metadata d"
  "remove_fails (os_Remove p d) = remove_fails d"
  "files (os_Remove p d) q = (if q = p \<and> \<not> remove_fails d p then None else files d q)"
  by (simp_all add: os_Remove_def)

lemma removeEntry_absent:
  "DAList.lookup (entries (fst s)) key = None \<Longrightarrow> removeEntry key s = s"
  by (simp add: removeEntry_def)

lemma removeEntry_present:
  assumes "cache_inv (fst s)" "DAList.lookup (entries (fst s)) key = Some e"
  shows "removeEntry key s =
           ((fst s)\<lparr>accessOrder := filter (\<lambda>e. snd e \<noteq> key) (accessOrder (fst s)),
                    accessMap := DAList.delete key (accessMap (fst s)),
                    entries := DAList.delete key (entries (fst s)),
                    currentSize := currentSize (fst s) - Size e\<rparr>,
            os_Remove (Join (filesDir (fst s)) (Filename e)) (snd s))"
proof -
  from assms have "key \<in> set (order_keys (fst s))"
    using inv_keys [OF assms(1), of key] by simp
  then obtain el where "(el, key) \<in> set (accessOrder (fst s))"
    by (auto simp: order_keys_def)
  with assms(1) have el: "DAList.lookup (accessMap (fst s)) key = Some el"
    by (simp add: inv_link)
  show ?thesis
    using assms(2) el Remove_by_key [OF assms(1) el]
    by (simp add: removeEntry_def Let_def)
qed

lemma removeEntry_order:
  assumes "cache_inv (fst s)"
  shows "order_keys (fst (removeEntry key s)) = removeAll key (order_keys (fst s))"
proof (cases "DAList.lookup (entries (fst s)) key")
  case None
  with assms have "key \<notin> set (order_keys (fst s))" by (simp add: inv_keys)
  with None show ?thesis by (simp add: removeEntry_absent)
next
  case (Some e)
  show ?thesis
    by (simp add: removeEntry_present [OF assms Some] order_keys_def removeAll_filter_not_eq
        filter_map o_def eq_commute)
qed

lemma keys_filter_out:
  "set (map snd (filter (\<lambda>e. snd e \<noteq> key) xs)) = set (map snd xs) - {key}"
  by auto

lemma removeEntry_inv:
  assumes "cache_inv (fst s)"
  shows "cache_inv (fst (removeEntry key s))"
proof (cases "DAList.lookup (entries (fst s)) key")
  case None
  with assms show ?thesis by (simp add: removeEntry_absent)
next
  case (Some e)
  let ?c = "fst s"
  note inv = assms
  have "distinct (map fst (filter (\<lambda>e. snd e \<noteq> key) (accessOrder ?c)))"
    using inv_ids [OF inv] by (simp add: distinct_map_filter)
  moreover have "\<forall>x \<in> set (filter (\<lambda>e. snd e \<noteq> key) (accessOrder ?c)). fst x < nextElem ?c"
    using inv_fresh [OF inv] by simp
  moreover have "\<forall>k el. DAList.lookup (DAList.delete key (accessMap ?c)) k = Some el \<longleftrightarrow>
      (el, k) \<in> set (filter (\<lambda>e. snd e \<noteq> key) (accessOrder ?c))"
    using inv_link [OF inv] by (auto simp: lookup_delete)
  moreover have "\<forall>k. DAList.lookup (DAList.delete key (entries ?c)) k \<noteq> None \<longleftrightarrow>
      k \<in> set (map snd (filter (\<lambda>e. snd e \<noteq> key) (accessOrder ?c)))"
    unfolding keys_filter_out
    by (simp add: lookup_delete inv_keys_ex [OF inv] order_keys_def [symmetric])
  moreover have "currentSize ?c - Size e = total_size (DAList.delete key (entries ?c))"
    using inv_size [OF inv] Some by (simp add: total_size_delete)
  moreover have "\<forall>k e. DAList.lookup (DAList.delete key (entries ?c)) k = Some e \<longrightarrow> Key e = k \<and> 0 \<le> Size e"
    using inv_entry [OF inv] by (auto simp: lookup_delete)
  ultimately show ?thesis
    unfolding removeEntry_present [OF assms Some] cache_inv_alt
    by (simp add: order_keys_def)
qed


lemma evict_stop:
  "\<not> (maxSizeBytes (fst s) < currentSize (fst s) + n \<and> accessOrder (fst s) \<noteq> []) \<Longrightarrow>
   evictIfNeeded n s = Some s"
  by (subst evictIfNeeded.simps) auto

lemma evict_go:
  "maxSizeBytes (fst s) < currentSize (fst s) + n \<Longrightarrow> accessOrder (fst s) \<noteq> [] \<Longrightarrow>
   evictIfNeeded n s =
     evictIfNeeded n (count_eviction (removeEntry (snd (last (accessOrder (fst s)))) s))"
  by (subst evictIfNeeded.simps) (simp add: Back_def)

lemma count_eviction_inv: "cache_inv (fst (count_eviction s)) = cache_inv (fst s)"
  by (simp add: count_eviction_def cache_inv_def list_inv_def size_inv_def order_keys_def)

lemma count_eviction_fields:
  "accessOrder (fst (count_eviction s)) = accessOrder (fst s)"
  "entries (fst (count_eviction s)) = entries (fst s)"
  "currentSize (fst (count_eviction s)) = currentSize (fst s)"
  "maxSizeBytes (fst (count_eviction s)) = maxSizeBytes (fst s)"
  "filesDir (fst (count_eviction s)) = filesDir (fst s)"
  "nextElem (fst (count_eviction s)) = nextElem (fst s)"
  "snd (count_eviction s) = snd s"
  "order_keys (fst (count_eviction s)) = order_keys (fst s)"
  by (simp_all add: count_eviction_def order_keys_def)

lemma order_keys_last:
  "accessOrder c \<noteq> [] \<Longrightarrow> snd (last (accessOrder c)) = last (order_keys c)"
  by (simp add: order_keys_def last_map)

lemma removeAll_last_distinct:
  "distinct xs \<Longrightarrow> xs \<noteq> [] \<Longrightarrow> removeAll (last xs) xs = butlast xs"
proof (induction xs)
  case Nil
  then show ?case by simp
next
  case (Cons x xs)
  then show ?case by (cases "xs = []") auto
qed

lemma evict_victim_order:
  assumes "cache_inv (fst s)" "accessOrder (fst s) \<noteq> []"
  shows "order_keys (fst (removeEntry (snd (last (accessOrder (fst s)))) s)) =
         butlast (order_keys (fst s))"
proof -
  from assms(2) have ne: "order_keys (fst s) \<noteq> []" by (simp add: order_keys_def)
  show ?thesis
    by (simp add: removeEntry_order [OF assms(1)] order_keys_last [OF assms(2)]
        removeAll_last_distinct [OF inv_distinct_order [OF assms(1)] ne])
qed

lemma evict_rule:
  assumes "cache_inv (fst s)" and "I s"
    and step: "\<And>t. cache_inv (fst t) \<Longrightarrow> I t \<Longrightarrow>
        maxSizeBytes (fst t) < currentSize (fst t) + n \<Longrightarrow> accessOrder (fst t) \<noteq> [] \<Longrightarrow>
        I (count_eviction (removeEntry (snd (last (accessOrder (fst t)))) t))"
  shows "\<exists>s'. evictIfNeeded n s = Some s' \<and> cache_inv (fst s') \<and> I s' \<and>
           \<not> (maxSizeBytes (fst s') < currentSize (fst s') + n \<and> accessOrder (fst s') \<noteq> [])"
  using assms(1,2)
proof (induction "length (accessOrder (fst s))" arbitrary: s rule: less_induct)
  case less
  show ?case
  proof (cases "maxSizeBytes (fst s) < currentSize (fst s) + n \<and> accessOrder (fst s) \<noteq> []")
    case False
    with less.prems show ?thesis by (simp add: evict_stop)
  next
    case True
    let ?t = "count_eviction (removeEntry (snd (last (accessOrder (fst s)))) s)"
    have inv: "cache_inv (fst ?t)"
      by (simp add: count_eviction_inv removeEntry_inv less.prems(1))
    have I: "I ?t"
      using step [OF less.prems] True by simp
    from True have ne: "accessOrder (fst s) \<noteq> []" by simp
    have "order_keys (fst ?t) = butlast (order_keys (fst s))"
      by (simp add: count_eviction_fields evict_victim_order [OF less.prems(1) ne])
    then have "length (order_keys (fst ?t)) < length (order_keys (fst s))"
      using ne by (simp add: order_keys_def)
    then have "length (accessOrder (fst ?t)) < length (accessOrder (fst s))"
      by (simp add: order_keys_def)
    from less.hyps [OF this inv I] evict_go [of s n] True show ?thesis by simp
  qed
qed

lemma install_fields:
  "entries (install key fn sz env c) =
     DAList.update key \<lparr>Key = key, Filename = fn, Size = sz,
                        AccessTime = now_access env, CreateTime = now_create env\<rparr> (entries c)"
  "accessOrder (install key fn sz env c) = (nextElem c, key) # accessOrder c"
  "accessMap (install key fn sz env c) = DAList.update key (nextElem c) (accessMap c)"
  "nextElem (install key fn sz env c) = Suc (nextElem c)"
  "currentSize (install key fn sz env c) = currentSize c + sz"
  "maxSizeBytes (install key fn sz env c) = maxSizeBytes c"
  "filesDir (install key fn sz env c) = filesDir c"
  "cacheDir (install key fn sz env c) = cacheDir c"
  "order_keys (install key fn sz env c) = key # order_keys c"
  "Evictions (stats (install key fn sz env c)) = Evictions (stats c)"
  "Hits (stats (install key fn sz env c)) = Hits (stats c)"
  "Misses (stats (install key fn sz env c)) = Misses (stats c)"
  by (simp_all add: install_def Let_def order_keys_def)

lemma install_inv:
  assumes inv: "cache_inv c" and new: "DAList.lookup (entries c) key = None" and "0 \<le> sz"
  shows "cache_inv (install key fn sz env c)"
proof -
  from new have notin: "key \<notin> set (order_keys c)"
    by (simp add: inv_keys [OF inv])
  have "distinct (map fst ((nextElem c, key) # accessOrder c))"
    using inv_ids [OF inv] inv_fresh [OF inv] by fastforce
  moreover have "\<forall>e \<in> set ((nextElem c, key) # accessOrder c). fst e < Suc (nextElem c)"
    using inv_fresh [OF inv] by (auto simp: less_Suc_eq)
  moreover have "\<forall>k el. DAList.lookup (DAList.update key (nextElem c) (accessMap c)) k = Some el \<longleftrightarrow>
      (el, k) \<in> set ((nextElem c, key) # accessOrder c)"
    using notin by (auto simp: lookup_update inv_link [OF inv] order_keys_def image_iff)
  moreover have "\<forall>k. DAList.lookup (entries (install key fn sz env c)) k \<noteq> None \<longleftrightarrow>
      k \<in> set (key # order_keys c)"
    by (simp add: install_fields lookup_update inv_keys_ex [OF inv])
  moreover have "currentSize c + sz = total_size (entries (install key fn sz env c))"
    using new by (simp add: install_fields total_size_update_new inv_size [OF inv])
  moreover have "\<forall>k e. DAList.lookup (entries (install key fn sz env c)) k = Some e \<longrightarrow>
      Key e = k \<and> 0 \<le> Size e"
    using inv_entry [OF inv] \<open>0 \<le> sz\<close> by (auto simp: install_fields lookup_update)
  ultimately show ?thesis
    unfolding cache_inv_alt by (simp add: install_fields)
qed

lemma removeEntry_frame:
  "filesDir (fst (removeEntry key s)) = filesDir (fst s)"
  "cacheDir (fst (removeEntry key s)) = cacheDir (fst s)"
  "maxSizeBytes (fst (removeEntry key s)) = maxSizeBytes (fst s)"
  "nextElem (fst (removeEntry key s)) = nextElem (fst s)"
  "stats (fst (removeEntry key s)) = stats (fst s)"
  "metadata (snd (removeEntry key s)) = metadata (snd s)"
  "remove_fails (snd (removeEntry key s)) = remove_fails (snd s)"
  by (simp_all add: removeEntry_def Let_def split: option.splits)

lemma removeEntry_lookup:
  "DAList.lookup (entries (fst (removeEntry key s))) k =
     (if k = key then None else DAList.lookup (entries (fst s)) k)"
  by (auto simp: removeEntry_def Let_def lookup_delete split: option.splits)

lemma removeEntry_files:
  "files (snd (removeEntry key s)) p = None \<or> files (snd (removeEntry key s)) p = files (snd s) p"
  by (simp add: removeEntry_def Let_def split: option.splits)


lemma evict_frame_refl: "evict_frame s s"
  by (simp add: evict_frame_def)

lemma evict_frame_step:
  assumes "evict_frame s t"
  shows "evict_frame s (count_eviction (removeEntry key t))"
proof -
  have e: "\<forall>k. DAList.lookup (entries (fst (removeEntry key t))) k = None \<or>
          DAList.lookup (entries (fst (removeEntry key t))) k = DAList.lookup (entries (fst s)) k"
    using assms by (auto simp: evict_frame_def removeEntry_lookup)
  have f: "\<forall>p. files (snd (removeEntry key t)) p = None \<or>
          files (snd (removeEntry key t)) p = files (snd s) p"
    using assms removeEntry_files [of key t] by (auto simp: evict_frame_def) metis
  show ?thesis
    using assms e f
    by (simp add: evict_frame_def count_eviction_def removeEntry_frame)
qed

lemma evict_returns:
  assumes "cache_inv (fst s)"
  shows "\<exists>s'. evictIfNeeded n s = Some s' \<and> cache_inv (fst s') \<and> evict_frame s s' \<and>
           \<not> (maxSizeBytes (fst s') < currentSize (fst s') + n \<and> accessOrder (fst s') \<noteq> [])"
  by (rule evict_rule [OF assms, where I = "evict_frame s"])
     (simp_all add: evict_frame_refl evict_frame_step)

lemma Put_alt:
  "Put key data env s =
     (let s1 = removeEntry key s;
          filePath = Join (filesDir (fst s)) (sanitizeFilename key);
          tmpPath = filePath @ ''.tmp''
      in if create_fails env then Some (Inl CreateTempFailed, s1)
         else if copy_fails env
         then Some (Inl WriteFileFailed,
                    (fst s1, os_Remove tmpPath
                       ((snd s1)\<lparr>files := (files (snd s1))(tmpPath \<mapsto> take (copy_written env) data)\<rparr>)))
         else
           (case evictIfNeeded (int (length data))
                   (fst s1, (snd s1)\<lparr>files := (files (snd s1))(tmpPath \<mapsto> data)\<rparr>) of
              None \<Rightarrow> None
            | Some s3 \<Rightarrow>
                (case (if rename_fails env then None else files (snd s3) tmpPath) of
                   None \<Rightarrow> Some (Inl RenameFailed, (fst s3, os_Remove tmpPath (snd s3)))
                 | Some content \<Rightarrow>
                     Some (Inr filePath,
                           saveMetadata (save_order env) (save_outcome env)
                             (install key (sanitizeFilename key) (int (length data)) env (fst s3),
                              (snd s3)\<lparr>files := (files (snd s3))(tmpPath := None, filePath \<mapsto> content)\<rparr>)))))"
proof -
  have "(if DAList.lookup (entries (fst s)) key \<noteq> None then removeEntry key s else s) =
        removeEntry key s"
    by (simp add: removeEntry_absent)
  then show ?thesis
    by (auto simp: Put_def Let_def removeEntry_frame split: option.splits)
qed

lemma saveMetadata_frame:
  "fst (saveMetadata order outcome s) = fst s"
  "files (snd (saveMetadata order outcome s)) = files (snd s)"
  by (simp_all add: saveMetadata_def Let_def split: write_outcome.splits)

lemma Put_outcome:
  assumes inv: "cache_inv (fst s)"
  obtains
    (create) "create_fails env"
      "Put key data env s = Some (Inl CreateTempFailed, removeEntry key s)"
  | (copy) "\<not> create_fails env" "copy_fails env"
      "Put key data env s =
         Some (Inl WriteFileFailed,
               (fst (removeEntry key s),
                os_Remove (tmp_path s key)
                  ((snd (removeEntry key s))
                     \<lparr>files := (files (snd (removeEntry key s)))
                                 (tmp_path s key \<mapsto> take (copy_written env) data)\<rparr>)))"
  | (rename) s3 where "\<not> create_fails env" "\<not> copy_fails env"
      "rename_fails env \<or> files (snd s3) (tmp_path s key) = None"
      "evictIfNeeded (int (length data)) (staged key data s) = Some s3"
      "cache_inv (fst s3)" "evict_frame (staged key data s) s3"
      "\<not> (maxSizeBytes (fst s3) < currentSize (fst s3) + int (length data) \<and> accessOrder (fst s3) \<noteq> [])"
      "Put key data env s = Some (Inl RenameFailed, (fst s3, os_Remove (tmp_path s key) (snd s3)))"
  | (stored) s3 content where "\<not> create_fails env" "\<not> copy_fails env" "\<not> rename_fails env"
      "files (snd s3) (tmp_path s key) = Some content"
      "evictIfNeeded (int (length data)) (staged key data s) = Some s3"
      "cache_inv (fst s3)" "evict_frame (staged key data s) s3"
      "\<not> (maxSizeBytes (fst s3) < currentSize (fst s3) + int (length data) \<and> accessOrder (fst s3) \<noteq> [])"
      "Put key data env s =
         Some (Inr (file_path s key),
               saveMetadata (save_order env) (save_outcome env)
                 (install key (sanitizeFilename key) (int (length data)) env (fst s3),
                  (snd s3)\<lparr>files := (files (snd s3))(tmp_path s key := None, file_path s key \<mapsto> content)\<rparr>))"
proof -
  have inv2: "cache_inv (fst (staged key data s))"
    by (simp add: staged_def removeEntry_inv inv)
  from evict_returns [OF inv2, of "int (length data)"]
  obtain s3 where s3: "evictIfNeeded (int (length data)) (staged key data s) = Some s3"
    "cache_inv (fst s3)" "evict_frame (staged key data s) s3"
    "\<not> (maxSizeBytes (fst s3) < currentSize (fst s3) + int (length data) \<and> accessOrder (fst s3) \<noteq> [])"
    by blast
  show thesis
  proof (cases "create_fails env")
    case True
    then show ?thesis
      by (intro create) (simp_all add: Put_alt)
  next
    case nc: False
    show ?thesis
    proof (cases "copy_fails env")
      case True
      with nc show ?thesis
        by (intro copy) (simp_all add: Put_alt Let_def tmp_path_def file_path_def)
    next
      case ncp: False
      show ?thesis
      proof (cases "rename_fails env \<or> files (snd s3) (tmp_path s key) = None")
        case True
        have "Put key data env s =
            Some (Inl RenameFailed, (fst s3, os_Remove (tmp_path s key) (snd s3)))"
          using nc ncp True s3(1)
          unfolding Put_alt Let_def staged_def tmp_path_def file_path_def
          by auto
        with nc ncp True s3 show ?thesis by (intro rename)
      next
        case False
        then obtain content where c: "files (snd s3) (tmp_path s key) = Some content"
          and nr: "\<not> rename_fails env"
          by auto
        have "Put key data env s =
         Some (Inr (file_path s key),
               saveMetadata (save_order env) (save_outcome env)
                 (install key (sanitizeFilename key) (int (length data)) env (fst s3),
                  (snd s3)\<lparr>files := (files (snd s3))(tmp_path s key := None, file_path s key \<mapsto> content)\<rparr>))"
          using nc ncp nr c s3(1)
          unfolding Put_alt Let_def staged_def tmp_path_def file_path_def
          by auto
        with nc ncp nr c s3 show ?thesis by (intro stored)
      qed
    qed
  qed
qed

lemma evict_frame_lookup:
  "evict_frame s t \<Longrightarrow> DAList.lookup (entries (fst s)) k = None \<Longrightarrow>
   DAList.lookup (entries (fst t)) k = None"
  unfolding evict_frame_def by metis

lemma Put_inv:
  assumes inv: "cache_inv (fst s)"
  shows "\<exists>r s'. Put key data env s = Some (r, s') \<and> cache_inv (fst s')"
  using inv
proof (cases rule: Put_outcome [where key = key and data = data and env = env])
  case create
  then show ?thesis by (simp add: removeEntry_inv inv)
next
  case copy
  then show ?thesis by (simp add: removeEntry_inv inv)
next
  case (rename s3)
  then show ?thesis by simp
next
  case (stored s3 content)
  have "DAList.lookup (entries (fst (staged key data s))) key = None"
    by (simp add: staged_def removeEntry_lookup)
  with stored(7) have "DAList.lookup (entries (fst s3)) key = None"
    by (rule evict_frame_lookup)
  with stored(6) have "cache_inv (install key (sanitizeFilename key) (int (length data)) env (fst s3))"
    by (simp add: install_inv)
  with stored(9) show ?thesis by (simp add: saveMetadata_frame)
qed

lemma Put_preserves_inv:
  "cache_inv (fst s) \<Longrightarrow> Put key data env s = Some (r, s') \<Longrightarrow> cache_inv (fst s')"
  using Put_inv [of s key data env] by auto

lemma total_size_nonneg:
  assumes "cache_inv c"
  shows "0 \<le> total_size (entries c)"
proof -
  have "\<forall>p \<in> set (DAList.impl_of (entries c)). 0 \<le> Size (snd p)"
    using inv_entry [OF assms] by (auto simp: lookup_iff)
  then show ?thesis
    unfolding total_size_def by (intro sum_list_nonneg) auto
qed

lemma inv_empty_order:
  assumes "cache_inv c" "accessOrder c = []"
  shows "keys_of (entries c) = []" "currentSize c = 0"
proof -
  from assms have "set (keys_of (entries c)) = {}"
    by (simp add: cache_inv_def order_keys_def)
  then show k: "keys_of (entries c) = []" by simp
  then have "DAList.impl_of (entries c) = []" by (simp add: keys_of_def)
  then show "currentSize c = 0"
    by (simp add: inv_size [OF assms(1)] total_size_def)
qed

lemma find_element:
  assumes "cache_inv c" "DAList.lookup (accessMap c) key = Some el"
  shows "find (\<lambda>e. fst e = el) (accessOrder c) = Some (el, key)"
proof (cases "find (\<lambda>e. fst e = el) (accessOrder c)")
  case None
  from assms have "(el, key) \<in> set (accessOrder c)" by (simp add: inv_link)
  with None show ?thesis by (auto simp: find_None_iff)
next
  case (Some x)
  then have x: "fst x = el" "x \<in> set (accessOrder c)"
    by (auto simp: find_Some_iff)
  from assms have m: "(el, key) \<in> set (accessOrder c)" by (simp add: inv_link)
  from x have "(el, snd x) \<in> set (accessOrder c)" by (metis prod.collapse)
  from inv_element_key [OF assms(1) m this] x(1) have "x = (el, key)"
    by (simp add: prod_eq_iff)
  with Some show ?thesis by simp
qed

lemma MoveToFront_present:
  assumes "cache_inv c" "DAList.lookup (accessMap c) key = Some el"
  shows "MoveToFront el (accessOrder c) = (el, key) # filter (\<lambda>e. snd e \<noteq> key) (accessOrder c)"
  by (simp add: MoveToFront_def find_element [OF assms] Remove_by_key [OF assms])

lemma Get_miss:
  "DAList.lookup (entries (fst s)) key = None \<Longrightarrow>
   Get key t s = (('''', False), (count_miss (fst s), snd s))"
  by (simp add: Get_def)

lemma Get_stale:
  "DAList.lookup (entries (fst s)) key = Some e \<Longrightarrow>
   files (snd s) (Join (filesDir (fst s)) (Filename e)) = None \<Longrightarrow>
   Get key t s = (('''', False), (count_miss (fst (removeEntry key s)), snd (removeEntry key s)))"
  by (simp add: Get_def Let_def)

lemma Get_hit:
  assumes "cache_inv (fst s)" "DAList.lookup (entries (fst s)) key = Some e"
    "files (snd s) (Join (filesDir (fst s)) (Filename e)) = Some content"
  shows "\<exists>el. (el, key) \<in> set (accessOrder (fst s)) \<and>
     Get key t s =
       ((Join (filesDir (fst s)) (Filename e), True),
        (count_hit ((fst s)\<lparr>entries := DAList.update key (e\<lparr>AccessTime := t\<rparr>) (entries (fst s)),
                           accessOrder := (el, key) # filter (\<lambda>e. snd e \<noteq> key) (accessOrder (fst s))\<rparr>),
         snd s))"
proof -
  from assms(1,2) have "key \<in> set (order_keys (fst s))"
    using inv_keys [OF assms(1), of key] by simp
  then obtain el where m: "(el, key) \<in> set (accessOrder (fst s))"
    by (auto simp: order_keys_def)
  with assms(1) have el: "DAList.lookup (accessMap (fst s)) key = Some el"
    by (simp add: inv_link)
  have "MoveToFront el (accessOrder (fst s)) =
        (el, key) # filter (\<lambda>e. snd e \<noteq> key) (accessOrder (fst s))"
    by (rule MoveToFront_present [OF assms(1) el])
  with assms(2,3) el m show ?thesis
    by (auto simp: Get_def Let_def)
qed

lemma count_inv:
  "cache_inv (count_miss c) = cache_inv c" "cache_inv (count_hit c) = cache_inv c"
  by (simp_all add: count_miss_def count_hit_def cache_inv_def list_inv_def size_inv_def order_keys_def)

lemma touch_inv:
  assumes inv: "cache_inv c" and e: "DAList.lookup (entries c) key = Some e"
    and m: "(el, key) \<in> set (accessOrder c)"
  shows "cache_inv (c\<lparr>entries := DAList.update key (e\<lparr>AccessTime := t\<rparr>) (entries c),
                     accessOrder := (el, key) # filter (\<lambda>e. snd e \<noteq> key) (accessOrder c)\<rparr>)"
proof -
  let ?ao = "(el, key) # filter (\<lambda>e. snd e \<noteq> key) (accessOrder c)"
  let ?m = "DAList.update key (e\<lparr>AccessTime := t\<rparr>) (entries c)"
  have only: "x = (el, key)" if "x \<in> set (accessOrder c)" "snd x = key" for x
  proof -
    from that have "(fst x, key) \<in> set (accessOrder c)" by (metis prod.collapse)
    from inv_element_key [OF inv m this] that(2) show ?thesis by (simp add: prod_eq_iff)
  qed
  have "x \<in> set ?ao \<longleftrightarrow> x \<in> set (accessOrder c)" for x
  proof (cases "snd x = key")
    case True
    then have "x \<in> set (accessOrder c) \<longleftrightarrow> x = (el, key)"
      using m only [of x] by blast
    with True show ?thesis by simp
  next
    case False
    then have "x \<noteq> (el, key)" by auto
    with False show ?thesis by simp
  qed
  then have same: "set ?ao = set (accessOrder c)"
    by blast
  have "el \<notin> fst ` set (filter (\<lambda>e. snd e \<noteq> key) (accessOrder c))"
  proof
    assume "el \<in> fst ` set (filter (\<lambda>e. snd e \<noteq> key) (accessOrder c))"
    then obtain x where x: "x \<in> set (accessOrder c)" "snd x \<noteq> key" "fst x = el" by auto
    then have "(el, snd x) \<in> set (accessOrder c)" by (metis prod.collapse)
    from inv_element_key [OF inv m this] x(2) show False by simp
  qed
  then have "distinct (map fst ?ao)"
    using inv_ids [OF inv] by (simp add: distinct_map_filter)
  moreover have "\<forall>x \<in> set ?ao. fst x < nextElem c"
    unfolding same using inv_fresh [OF inv] by simp
  moreover have "\<forall>k el'. DAList.lookup (accessMap c) k = Some el' \<longleftrightarrow> (el', k) \<in> set ?ao"
    unfolding same by (simp add: inv_link [OF inv])
  moreover have "\<forall>k. DAList.lookup ?m k \<noteq> None \<longleftrightarrow> k \<in> set (map snd ?ao)"
  proof -
    have s: "set (map snd ?ao) = set (order_keys c)"
      using same by (simp only: set_map order_keys_def)
    have kin: "key \<in> set (order_keys c)"
      using e inv_keys [OF inv, of key] by simp
    show ?thesis
      unfolding s using kin by (simp add: lookup_update inv_keys_ex [OF inv])
  qed
  moreover have "currentSize c = total_size ?m"
    using e by (simp add: total_size_update_old inv_size [OF inv])
  moreover have "\<forall>k e'. DAList.lookup ?m k = Some e' \<longrightarrow> Key e' = k \<and> 0 \<le> Size e'"
  proof (intro allI impI)
    fix k e' assume l: "DAList.lookup ?m k = Some e'"
    show "Key e' = k \<and> 0 \<le> Size e'"
    proof (cases "k = key")
      case True
      with l have "e' = e\<lparr>AccessTime := t\<rparr>" by (simp add: lookup_update)
      with inv_entry [OF inv e] True show ?thesis by simp
    next
      case False
      with l have "DAList.lookup (entries c) k = Some e'" by (simp add: lookup_update)
      from inv_entry [OF inv this] show ?thesis .
    qed
  qed
  ultimately show ?thesis
    unfolding cache_inv_alt by (simp add: order_keys_def)
qed

lemma Get_inv:
  assumes inv: "cache_inv (fst s)"
  shows "cache_inv (fst (snd (Get key t s)))"
proof (cases "DAList.lookup (entries (fst s)) key")
  case None
  then show ?thesis by (simp add: Get_miss count_inv inv)
next
  case (Some e)
  show ?thesis
  proof (cases "files (snd s) (Join (filesDir (fst s)) (Filename e))")
    case None
    with Some show ?thesis by (simp add: Get_stale count_inv removeEntry_inv inv)
  next
    case (Some content)
    from Get_hit [OF inv \<open>DAList.lookup (entries (fst s)) key = Some e\<close> Some, of t]
    obtain el where "(el, key) \<in> set (accessOrder (fst s))"
      and "Get key t s =
       ((Join (filesDir (fst s)) (Filename e), True),
        (count_hit ((fst s)\<lparr>entries := DAList.update key (e\<lparr>AccessTime := t\<rparr>) (entries (fst s)),
                           accessOrder := (el, key) # filter (\<lambda>e. snd e \<noteq> key) (accessOrder (fst s))\<rparr>),
         snd s))"
      by blast
    then show ?thesis
      using touch_inv [OF inv \<open>DAList.lookup (entries (fst s)) key = Some e\<close>]
      by (simp add: count_inv)
  qed
qed




lemmas eval_defs = Put_alt Let_def removeEntry_def empty_cache_def no_disk_def no_fault_def
  lookup_empty lookup_update lookup_delete install_def saveMetadata_def sanitizeFilename_def Ext_def
  safe_char_def Join_def order_keys_def empty.rep_eq update.rep_eq delete.rep_eq evict_stop evict_go
  count_eviction_def Back_def Remove_def keys_of_def entry_x_def cache_x_def disk_x_def
  file_path_def tmp_path_def GB_def wrap64_def os_Remove_def json_entry_def json_string_def
  utf8_width_def continuation_def

lemma Put_x:
  "Put ''b/x'' ''abc'' (no_fault 1) (empty_cache ''/c'' (GB 1), no_disk) =
     Some (Inr ''/c/files/b_x'', (cache_x, disk_x))"
  by (simp add: eval_defs fun_eq_iff)



lemma mset_take_nth_drop:
  assumes "i < length ys"
  shows "add_mset (ys ! i) (mset (take i ys @ drop (Suc i) ys)) = mset ys"
proof -
  have "mset ys = mset (take i ys @ ys ! i # drop (Suc i) ys)"
    by (rule arg_cong [OF id_take_nth_drop [OF assms], of mset])
  then show ?thesis by simp
qed

lemma go_range_mset: "mset (go_range ns xs) = mset xs"
proof (induction ns arbitrary: xs)
  case Nil
  show ?case by (cases xs) simp_all
next
  case (Cons n ns)
  show ?case
  proof (cases xs)
    case Nil
    then show ?thesis by simp
  next
    case (Cons x xs')
    have i: "n mod Suc (length xs') < length (x # xs')" by simp
    from mset_take_nth_drop [OF i] Cons.IH Cons show ?thesis
      by (simp add: Let_def)
  qed
qed

lemma sort_swap_mset:
  "i < length xs \<Longrightarrow> j < length xs \<Longrightarrow>
   mset (sort_swap i j xs) = mset xs \<and> length (sort_swap i j xs) = length xs"
  by (simp add: sort_swap_def mset_swap)

lemma fold_sort_swap_mset:
  "i < length xs \<Longrightarrow> \<forall>j \<in> set js. j < length xs \<Longrightarrow>
   mset (fold (sort_swap i) js xs) = mset xs \<and> length (fold (sort_swap i) js xs) = length xs"
proof (induction js arbitrary: xs)
  case Nil
  show ?case by simp
next
  case (Cons j js)
  from Cons.prems have s: "mset (sort_swap i j xs) = mset xs" "length (sort_swap i j xs) = length xs"
    by (simp_all add: sort_swap_mset)
  from Cons.IH [of "sort_swap i j xs"] Cons.prems s show ?case by simp
qed

lemma sort_inner_mset:
  "mset (sort_inner i xs) = mset xs \<and> length (sort_inner i xs) = length xs"
proof (cases "i < length xs")
  case True
  then show ?thesis
    unfolding sort_inner_def by (intro fold_sort_swap_mset) simp_all
next
  case False
  then show ?thesis by (simp add: sort_inner_def)
qed

lemma fold_sort_inner_mset:
  "mset (fold sort_inner is xs) = mset xs \<and> length (fold sort_inner is xs) = length xs"
proof (induction "is" arbitrary: xs)
  case Nil
  show ?case by simp
next
  case (Cons i "is")
  from Cons.IH [of "sort_inner i xs"] sort_inner_mset [of i xs] show ?case by simp
qed

lemma sort_by_time_mset: "mset (sort_by_time xs) = mset xs"
  by (simp add: sort_by_time_def fold_sort_inner_mset)

lemma list_inv_alt:
  "list_inv c \<longleftrightarrow>
     distinct (map fst (accessOrder c)) \<and>
     (\<forall>e \<in> set (accessOrder c). fst e < nextElem c) \<and>
     (\<forall>k el. DAList.lookup (accessMap c) k = Some el \<longleftrightarrow> (el, k) \<in> set (accessOrder c))"
proof -
  have a: "set (map (\<lambda>p. (snd p, fst p)) (DAList.impl_of (accessMap c))) = set (accessOrder c) \<longleftrightarrow>
           (\<forall>k el. DAList.lookup (accessMap c) k = Some el \<longleftrightarrow> (el, k) \<in> set (accessOrder c))"
    by (auto simp: lookup_iff image_iff set_eq_iff) force+
  show ?thesis
    unfolding list_inv_def a by (auto simp: list_all_iff)
qed

lemma size_inv_alt:
  "size_inv c \<longleftrightarrow>
     currentSize c = total_size (entries c) \<and>
     (\<forall>k e. DAList.lookup (entries c) k = Some e \<longrightarrow> Key e = k \<and> 0 \<le> Size e)"
  by (auto simp: size_inv_def lookup_iff list_all_iff)

lemma push_back_fields:
  "accessOrder (push_back key c) = accessOrder c @ [(nextElem c, key)]"
  "accessMap (push_back key c) = DAList.update key (nextElem c) (accessMap c)"
  "nextElem (push_back key c) = Suc (nextElem c)"
  "entries (push_back key c) = entries c"
  "currentSize (push_back key c) = currentSize c"
  "maxSizeBytes (push_back key c) = maxSizeBytes c"
  "filesDir (push_back key c) = filesDir c"
  "cacheDir (push_back key c) = cacheDir c"
  "stats (push_back key c) = stats c"
  "order_keys (push_back key c) = order_keys c @ [key]"
  by (simp_all add: push_back_def Let_def order_keys_def)

lemma push_back_list_inv:
  assumes inv: "list_inv c" and new: "key \<notin> set (order_keys c)"
  shows "list_inv (push_back key c)"
proof -
  from inv have ids: "distinct (map fst (accessOrder c))"
    and fresh: "\<And>e. e \<in> set (accessOrder c) \<Longrightarrow> fst e < nextElem c"
    and link: "\<And>k el. DAList.lookup (accessMap c) k = Some el \<longleftrightarrow> (el, k) \<in> set (accessOrder c)"
    unfolding list_inv_alt by blast+
  have "nextElem c \<notin> fst ` set (accessOrder c)"
    using fresh by fastforce
  with ids have "distinct (map fst (accessOrder c @ [(nextElem c, key)]))"
    by simp
  moreover have "\<forall>e \<in> set (accessOrder c @ [(nextElem c, key)]). fst e < Suc (nextElem c)"
    using fresh by (auto simp: less_Suc_eq)
  moreover have "\<forall>k el. DAList.lookup (DAList.update key (nextElem c) (accessMap c)) k = Some el \<longleftrightarrow>
      (el, k) \<in> set (accessOrder c @ [(nextElem c, key)])"
    using new by (auto simp: lookup_update link order_keys_def image_iff)
  ultimately show ?thesis
    unfolding list_inv_alt by (simp add: push_back_fields)
qed

lemma fold_push_back:
  assumes "list_inv c" "distinct ks" "set ks \<inter> set (order_keys c) = {}"
  shows "list_inv (fold push_back ks c) \<and>
         order_keys (fold push_back ks c) = order_keys c @ ks \<and>
         entries (fold push_back ks c) = entries c \<and>
         currentSize (fold push_back ks c) = currentSize c \<and>
         maxSizeBytes (fold push_back ks c) = maxSizeBytes c \<and>
         filesDir (fold push_back ks c) = filesDir c \<and>
         cacheDir (fold push_back ks c) = cacheDir c \<and>
         stats (fold push_back ks c) = stats c"
  using assms
proof (induction ks arbitrary: c)
  case Nil
  then show ?case by simp
next
  case (Cons k ks)
  from Cons.prems have new: "k \<notin> set (order_keys c)" by auto
  have inv: "list_inv (push_back k c)"
    by (rule push_back_list_inv [OF Cons.prems(1) new])
  have disj: "set ks \<inter> set (order_keys (push_back k c)) = {}"
    using Cons.prems(2,3) by (auto simp: push_back_fields)
  from Cons.prems(2) have d: "distinct ks" by simp
  from Cons.IH [OF inv d disj] show ?case
    by (simp add: push_back_fields)
qed

lemma load_entry_frame:
  "filesDir (load_entry d e c) = filesDir c"
  "cacheDir (load_entry d e c) = cacheDir c"
  "maxSizeBytes (load_entry d e c) = maxSizeBytes c"
  "stats (load_entry d e c) = stats c"
  by (simp_all add: load_entry_def Let_def push_back_fields split: option.splits)

lemma load_entry_lookup:
  "DAList.lookup (entries (load_entry d e c)) k =
     (case files d (Join (filesDir c) (Filename e)) of
        None \<Rightarrow> DAList.lookup (entries c) k
      | Some content \<Rightarrow>
          if k = Key e then Some (e\<lparr>Size := int (length content)\<rparr>)
          else DAList.lookup (entries c) k)"
  by (simp add: load_entry_def Let_def push_back_fields lookup_update split: option.splits)

lemma load_entry_size_inv:
  assumes inv: "size_inv c" and new: "DAList.lookup (entries c) (Key e) = None"
  shows "size_inv (load_entry d e c)"
proof (cases "files d (Join (filesDir c) (Filename e))")
  case None
  with inv show ?thesis by (simp add: load_entry_def)
next
  case (Some content)
  let ?e = "e\<lparr>Size := int (length content)\<rparr>"
  from inv have sz: "currentSize c = total_size (entries c)"
    and ent: "\<And>k e'. DAList.lookup (entries c) k = Some e' \<Longrightarrow> Key e' = k \<and> 0 \<le> Size e'"
    unfolding size_inv_alt by blast+
  have f: "entries (load_entry d e c) = DAList.update (Key e) ?e (entries c)"
    "currentSize (load_entry d e c) = currentSize c + int (length content)"
    using Some by (simp_all add: load_entry_def Let_def push_back_fields)
  have "currentSize (load_entry d e c) = total_size (entries (load_entry d e c))"
    using new by (simp add: f sz total_size_update_new)
  moreover have "\<forall>k e'. DAList.lookup (entries (load_entry d e c)) k = Some e' \<longrightarrow>
      Key e' = k \<and> 0 \<le> Size e'"
    using ent by (auto simp: f lookup_update)
  ultimately show ?thesis
    unfolding size_inv_alt by simp
qed

lemma fold_load_entry:
  assumes "size_inv c" "distinct (map Key es)"
    "\<forall>e \<in> set es. DAList.lookup (entries c) (Key e) = None"
  shows "size_inv (fold (load_entry d) es c) \<and>
         filesDir (fold (load_entry d) es c) = filesDir c \<and>
         cacheDir (fold (load_entry d) es c) = cacheDir c \<and>
         maxSizeBytes (fold (load_entry d) es c) = maxSizeBytes c \<and>
         stats (fold (load_entry d) es c) = stats c \<and>
         (\<forall>k. DAList.lookup (entries (fold (load_entry d) es c)) k =
            (case find (\<lambda>e. Key e = k) es of
               None \<Rightarrow> DAList.lookup (entries c) k
             | Some e \<Rightarrow>
                 (case files d (Join (filesDir c) (Filename e)) of
                    None \<Rightarrow> None
                  | Some content \<Rightarrow> Some (e\<lparr>Size := int (length content)\<rparr>))))"
  using assms
proof (induction es arbitrary: c)
  case Nil
  then show ?case by simp
next
  case (Cons e es)
  let ?c = "load_entry d e c"
  from Cons.prems have new: "DAList.lookup (entries c) (Key e) = None" by simp
  have inv: "size_inv ?c"
    by (rule load_entry_size_inv [OF Cons.prems(1) new])
  from Cons.prems(2) have dist: "distinct (map Key es)" and notin: "Key e \<notin> Key ` set es"
    by simp_all
  have rest: "\<forall>e' \<in> set es. DAList.lookup (entries ?c) (Key e') = None"
  proof
    fix e' assume e': "e' \<in> set es"
    with notin have "Key e' \<noteq> Key e" by (metis image_eqI)
    with Cons.prems(3) e' show "DAList.lookup (entries ?c) (Key e') = None"
      by (simp add: load_entry_lookup split: option.splits)
  qed
  note IH = Cons.IH [OF inv dist rest]
  have found: "find (\<lambda>e'. Key e' = Key e) es = None"
    using notin by (simp add: find_None_iff) (metis image_eqI)
  have "DAList.lookup (entries (fold (load_entry d) es ?c)) k =
            (case find (\<lambda>e. Key e = k) (e # es) of
               None \<Rightarrow> DAList.lookup (entries c) k
             | Some e \<Rightarrow>
                 (case files d (Join (filesDir c) (Filename e)) of
                    None \<Rightarrow> None
                  | Some content \<Rightarrow> Some (e\<lparr>Size := int (length content)\<rparr>)))" for k
  proof (cases "Key e = k")
    case True
    with IH found have "DAList.lookup (entries (fold (load_entry d) es ?c)) k =
        DAList.lookup (entries ?c) k"
      by simp
    with True new show ?thesis
      by (simp add: load_entry_lookup split: option.splits)
  next
    case False
    with IH show ?thesis
      by (simp add: load_entry_lookup load_entry_frame split: option.splits)
  qed
  with IH show ?case
    by (simp add: load_entry_frame)
qed

lemma empty_cache_inv: "cache_inv (empty_cache dir maxBytes)"
  by (simp add: cache_inv_def list_inv_def size_inv_def empty_cache_def keys_of_def order_keys_def
      total_size_def empty.rep_eq)

lemma sorted_keys_mset:
  "mset (map fst (sort_by_time (map (\<lambda>(key, entry). (key, AccessTime entry)) (go_range order (DAList.impl_of m))))) =
   mset (keys_of (m :: (string, Entry) alist))"
proof -
  have c: "fst \<circ> (\<lambda>(key, entry). (key, AccessTime entry)) = (fst :: string \<times> Entry \<Rightarrow> string)"
    by (simp add: fun_eq_iff)
  have "mset (map fst (sort_by_time ys)) = image_mset fst (mset ys)" for ys
    by (simp add: sort_by_time_mset)
  then show ?thesis
    by (simp add: go_range_mset keys_of_def multiset.map_comp c)
qed

lemma stats_update_inv:
  "cache_inv (c\<lparr>stats := st\<rparr>) = cache_inv c"
  by (simp add: cache_inv_def list_inv_def size_inv_def order_keys_def)

lemma order_keys_stats: "order_keys (c\<lparr>stats := st\<rparr>) = order_keys c"
  by (simp add: order_keys_def)

lemma loadFromDisk_listing:
  fixes d :: disk and order :: "nat list" and dir :: string and mb :: int
  assumes meta: "metadata d = Listing es" and dist: "distinct (map Key es)"
  defines "c \<equiv> snd (loadFromDisk order d (empty_cache dir mb))"
  shows "cache_inv c"
    and "filesDir c = Join dir ''files''" and "cacheDir c = dir" and "maxSizeBytes c = mb"
    and "DAList.lookup (entries c) k =
           (case find (\<lambda>e. Key e = k) es of
              None \<Rightarrow> None
            | Some e \<Rightarrow>
                (case files d (Join (Join dir ''files'') (Filename e)) of
                   None \<Rightarrow> None
                 | Some content \<Rightarrow> Some (e\<lparr>Size := int (length content)\<rparr>)))"
    and "order_keys c =
           map fst (sort_by_time (map (\<lambda>(key, entry). (key, AccessTime entry))
                                    (go_range order (DAList.impl_of (entries c)))))"
    and "Hits (stats c) = 0" and "Misses (stats c) = 0" and "Evictions (stats c) = 0"
proof -
  define c0 where "c0 = empty_cache dir mb"
  define c1 where "c1 = fold (load_entry d) es c0"
  define ks where "ks = map fst (sort_by_time (map (\<lambda>(key, entry). (key, AccessTime entry))
                                    (go_range order (DAList.impl_of (entries c1)))))"
  define c2 where "c2 = c1\<lparr>accessOrder := [], accessMap := DAList.empty\<rparr>"
  define c3 where "c3 = fold push_back ks c2"
  have c0: "size_inv c0" "\<forall>e \<in> set es. DAList.lookup (entries c0) (Key e) = None"
    "filesDir c0 = Join dir ''files''" "cacheDir c0 = dir" "maxSizeBytes c0 = mb"
    "\<And>k. DAList.lookup (entries c0) k = None"
    "Hits (stats c0) = 0" "Misses (stats c0) = 0" "Evictions (stats c0) = 0"
    by (simp_all add: c0_def empty_cache_def size_inv_def total_size_def empty.rep_eq lookup_empty)
  note l1 = fold_load_entry [OF c0(1) dist c0(2), of d, folded c1_def]
  have c2: "list_inv c2" "order_keys c2 = []" "entries c2 = entries c1" "currentSize c2 = currentSize c1"
    "maxSizeBytes c2 = maxSizeBytes c1" "filesDir c2 = filesDir c1" "cacheDir c2 = cacheDir c1"
    "stats c2 = stats c1"
    by (simp_all add: c2_def list_inv_def order_keys_def empty.rep_eq)
  have m: "mset ks = mset (keys_of (entries c1))"
    unfolding ks_def by (rule sorted_keys_mset)
  then have dk: "distinct ks"
    using distinct_keys_of [of "entries c1"] by (metis mset_eq_imp_distinct_iff)
  from m have sk: "set ks = set (keys_of (entries c1))"
    by (rule mset_eq_setD)
  have "set ks \<inter> set (order_keys c2) = {}" by (simp add: c2)
  note l3 = fold_push_back [OF c2(1) dk this, folded c3_def]
  have fold_eq: "fold (\<lambda>e. push_back (fst e)) xs = fold push_back (map fst xs)" for xs :: "(string \<times> time) list"
    by (simp add: fold_map o_def)
  have c: "c = c3\<lparr>stats := (stats c3)\<lparr>TotalBytes := currentSize c3,
                                        EntryCount := int (length (DAList.impl_of (entries c3)))\<rparr>\<rparr>"
    unfolding c_def loadFromDisk_def c3_def ks_def c2_def c1_def c0_def
    by (simp add: meta Let_def fold_eq)
  have inv3: "cache_inv c3"
    unfolding cache_inv_def using l3 l1 sk by (simp add: c2 size_inv_def)
  show "cache_inv c"
    unfolding c by (simp add: stats_update_inv inv3)
  show "filesDir c = Join dir ''files''" "cacheDir c = dir" "maxSizeBytes c = mb"
    using l3 l1 by (simp_all add: c c2 c0)
  show "DAList.lookup (entries c) k =
           (case find (\<lambda>e. Key e = k) es of
              None \<Rightarrow> None
            | Some e \<Rightarrow>
                (case files d (Join (Join dir ''files'') (Filename e)) of
                   None \<Rightarrow> None
                 | Some content \<Rightarrow> Some (e\<lparr>Size := int (length content)\<rparr>)))"
    using l3 l1 by (simp add: c c2 c0 split: option.splits)
  show "order_keys c =
           map fst (sort_by_time (map (\<lambda>(key, entry). (key, AccessTime entry))
                                    (go_range order (DAList.impl_of (entries c)))))"
    using l3 by (simp add: c c2 ks_def order_keys_stats)
  show "Hits (stats c) = 0" "Misses (stats c) = 0" "Evictions (stats c) = 0"
    using l3 l1 by (simp_all add: c c2 c0)
qed

lemma loadFromDisk_other:
  "metadata d = NoFile \<or> metadata d = Unreadable \<Longrightarrow> snd (loadFromDisk order d c) = c"
  by (auto simp: loadFromDisk_def)

lemma NewDiskLRUCache_inv:
  assumes "meta_ok d" "NewDiskLRUCache dir maxSizeGB env d = Some c"
  shows "cache_inv c"
proof (cases "metadata d")
  case NoFile
  with assms(2) show ?thesis
    by (auto simp: NewDiskLRUCache_def loadFromDisk_other empty_cache_inv split: if_splits)
next
  case Unreadable
  with assms(2) show ?thesis
    by (auto simp: NewDiskLRUCache_def loadFromDisk_other empty_cache_inv split: if_splits)
next
  case (Listing es)
  with assms(1) have "distinct (map Key es)" by (simp add: meta_ok_def)
  from loadFromDisk_listing(1) [OF Listing this] assms(2) show ?thesis
    by (auto simp: NewDiskLRUCache_def split: if_splits)
qed


section \<open>Properties of the downloader and the handler\<close>

lemma index_byte_None: "index_byte sep s = None \<longleftrightarrow> sep \<notin> set s"
  by (induction s) auto

lemma index_byte_Some:
  "index_byte sep s = Some i \<Longrightarrow> s = take i s @ sep # drop (Suc i) s \<and> sep \<notin> set (take i s)"
proof (induction s arbitrary: i)
  case Nil
  then show ?case by simp
next
  case (Cons c cs)
  show ?case
  proof (cases "c = sep")
    case True
    with Cons.prems show ?thesis by simp
  next
    case False
    with Cons.prems obtain j where j: "index_byte sep cs = Some j" "i = Suc j"
      by auto
    from Cons.IH [OF j(1)] False j(2) show ?thesis by simp
  qed
qed

lemma parseS3Key_no_separator:
  "CHR ''/'' \<notin> set key \<Longrightarrow> parseS3Key key = Inl InvalidKeyFormat"
  by (simp add: parseS3Key_def SplitN2_def index_byte_None [THEN iffD2])

lemma parseS3Key_separator:
  assumes "CHR ''/'' \<in> set key"
  shows "\<exists>bucket objectKey. parseS3Key key = Inr (bucket, objectKey) \<and>
           key = bucket @ ''/'' @ objectKey \<and> CHR ''/'' \<notin> set bucket"
proof -
  from assms obtain i where i: "index_byte CHR ''/'' key = Some i"
    using index_byte_None [of "CHR ''/''" key] by auto
  from index_byte_Some [OF i] i show ?thesis
    by (simp add: parseS3Key_def SplitN2_def)
qed

lemma Download_no_separator:
  "CHR ''/'' \<notin> set key \<Longrightarrow> Download key env s = (Inl InvalidKeyFormat, s)"
  by (simp add: Download_def parseS3Key_no_separator)

lemma HandleFile_download_error:
  assumes "CHR ''/'' \<notin> set key" and "TrimPrefix path ''/'' = key"
    and "snd (fst (Get key (now env) w)) = False"
  shows "\<exists>w'. HandleFile ''GET'' path env (w, dl) = Some (NotFound, (w', dl))"
proof -
  obtain p h w1 where g: "Get key (now env) w = ((p, h), w1)"
    by (metis surj_pair)
  with assms(3) have h: "h = False" by simp
  show ?thesis
    using assms(1,2) g h
    by (simp add: HandleFile_def Download_no_separator)
qed

text \<open>
  C6. For a key with no \<open>/\<close>, \<open>Download\<close> returns an error and leaves the downloader and
  the list of requests made to the storage service as they were (no location query, no
  object fetch); a \<open>GET\<close> for such a key that the cache does not hold is answered with
  not-found, status 404, again with no request to the service. For a key with a \<open>/\<close>,
  \<open>parseS3Key\<close> returns the text before the first \<open>/\<close> as the bucket and the text after
  it as the object key.
\<close>

theorem invalid_key_rejected:
  "(CHR ''/'' \<notin> set key \<longrightarrow>
      Download key benv s = (Inl InvalidKeyFormat, s) \<and>
      (TrimPrefix path ''/'' = key \<and> snd (fst (Get key (now env) w)) = False \<longrightarrow>
         (\<exists>w'. HandleFile ''GET'' path env (w, s) = Some (NotFound, (w', s))) \<and>
         status_code NotFound = 404)) \<and>
   (CHR ''/'' \<in> set key \<longrightarrow>
      (\<exists>bucket objectKey. parseS3Key key = Inr (bucket, objectKey) \<and>
         key = bucket @ ''/'' @ objectKey \<and> CHR ''/'' \<notin> set bucket))"
  using Download_no_separator HandleFile_download_error parseS3Key_separator
  by (auto simp: status_code_def)

theorem invalid_key_rejected_witness:
  "Download ''readme'' no_answer (NewS3Downloader, []) =
     (Inl InvalidKeyFormat, (NewS3Downloader, [])) \<and>
   (\<exists>w'. HandleFile ''GET'' ''/readme'' \<lparr>now = 5, backend = no_answer, store = no_fault 5\<rparr>
            ((empty_cache ''/c'' 100, no_disk), (NewS3Downloader, [])) =
          Some (NotFound, (w', (NewS3Downloader, [])))) \<and>
   (\<exists>bucket objectKey. parseS3Key ''bucket/a/b'' = Inr (bucket, objectKey) \<and>
      ''bucket/a/b'' = bucket @ ''/'' @ objectKey \<and> CHR ''/'' \<notin> set bucket)"
proof -
  have miss: "snd (fst (Get ''readme'' 5 (empty_cache ''/c'' 100, no_disk))) = False"
    by (simp add: Get_def empty_cache_def lookup_empty)
  have trim: "TrimPrefix ''/readme'' ''/'' = ''readme''"
    by (simp add: TrimPrefix_def)
  from invalid_key_rejected [of "''readme''" no_answer "(NewS3Downloader, [])" "''/readme''"
      "\<lparr>now = 5, backend = no_answer, store = no_fault 5\<rparr>" "(empty_cache ''/c'' 100, no_disk)"]
    invalid_key_rejected [of "''bucket/a/b''"] miss trim
  show ?thesis by simp
qed














end
